theory Spec2Isabelle
  imports Complex_Main "HOL-Library.Log_Nat"
begin

section \<open>Python floats\<close>

text \<open>
  The callback \<^verbatim>\<open>calculate_npv\<close> of \<^verbatim>\<open>src/app.py\<close> computes on Python floats, which are
  IEEE 754 binary64 numbers.  A float is modelled by its exact value: a finite double is
  the rational number it denotes, next to the two infinities and NaN.  The two zeros are
  one value here (they compare equal in Python, and the callback never divides by one).
  The numbers of the form arrive as JSON numbers; an integral one is a Python \<^verbatim>\<open>int\<close>
  whose arithmetic with a float is the float arithmetic on the same value, so that the
  inputs are modelled as floats as well.
\<close>

datatype pyfloat = Fin rat | PosInf | NegInf | NaN

text \<open>Rounding of a rational to the nearest integer, ties to the even one.\<close>

definition rhe :: "rat \<Rightarrow> int" where
  "rhe x = (let f = \<lfloor>x\<rfloor>; d = x - of_int f in
     if d < 1 / 2 then f else if 1 / 2 < d then f + 1 else if even f then f else f + 1)"

text \<open>The binary exponent of a positive rational: \<open>2 powi ilog2 a \<le> a < 2 powi (ilog2 a + 1)\<close>.\<close>

definition ilog2 :: "rat \<Rightarrow> int" where
  "ilog2 a = (if 1 \<le> a then bitlen \<lfloor>a\<rfloor> - 1 else - bitlen (\<lceil>1 / a\<rceil> - 1))"

text \<open>
  The spacing of the doubles around a positive rational: 53 significant bits, and the
  subnormal spacing \<open>2 powi - 1074\<close> below \<open>2 powi - 1022\<close>.
\<close>

definition ulp :: "rat \<Rightarrow> rat" where
  "ulp a = 2 powi (max (ilog2 a) (- 1022) - 52)"

definition round_mag :: "rat \<Rightarrow> rat" where
  "round_mag a = of_int (rhe (a / ulp a)) * ulp a"

text \<open>The doubles end below \<open>2 ^ 1024\<close>.\<close>

definition huge :: rat where
  "huge = 2 ^ 1024"

text \<open>
  Round to nearest, ties to even, as IEEE 754 prescribes for \<^verbatim>\<open>+\<close> and \<^verbatim>\<open>/\<close>: a result
  that rounds to \<open>2 ^ 1024\<close> or beyond is an infinity.
\<close>

definition round_double :: "rat \<Rightarrow> pyfloat" where
  "round_double q =
     (if q = 0 then Fin 0
      else if 0 < q then (if huge \<le> round_mag q then PosInf else Fin (round_mag q))
      else (if huge \<le> round_mag (- q) then NegInf else Fin (- round_mag (- q))))"

text \<open>A rational is a double when rounding leaves it alone.\<close>

definition is_double :: "rat \<Rightarrow> bool" where
  "is_double q = (round_double q = Fin q)"

text \<open>The exceptions that float arithmetic raises in Python.\<close>

datatype py_error = ZeroDivisionError | OverflowError

text \<open>Unary minus.\<close>

fun fneg :: "pyfloat \<Rightarrow> pyfloat" where
  "fneg (Fin a) = Fin (- a)"
| "fneg PosInf = NegInf"
| "fneg NegInf = PosInf"
| "fneg NaN = NaN"

text \<open>Addition never raises: it overflows to an infinity.\<close>

fun fadd :: "pyfloat \<Rightarrow> pyfloat \<Rightarrow> pyfloat" where
  "fadd (Fin a) (Fin b) = round_double (a + b)"
| "fadd NaN y = NaN"
| "fadd x NaN = NaN"
| "fadd PosInf NegInf = NaN"
| "fadd NegInf PosInf = NaN"
| "fadd PosInf y = PosInf"
| "fadd NegInf y = NegInf"
| "fadd x PosInf = PosInf"
| "fadd x NegInf = NegInf"

text \<open>True division raises \<^verbatim>\<open>ZeroDivisionError\<close> on a zero divisor, whatever the dividend.\<close>

fun fdiv :: "pyfloat \<Rightarrow> pyfloat \<Rightarrow> py_error + pyfloat" where
  "fdiv x (Fin b) =
     (if b = 0 then Inl ZeroDivisionError
      else case x of
        Fin a \<Rightarrow> Inr (round_double (a / b))
      | PosInf \<Rightarrow> Inr (if 0 < b then PosInf else NegInf)
      | NegInf \<Rightarrow> Inr (if 0 < b then NegInf else PosInf)
      | NaN \<Rightarrow> Inr NaN)"
| "fdiv (Fin a) PosInf = Inr (Fin 0)"
| "fdiv (Fin a) NegInf = Inr (Fin 0)"
| "fdiv x y = Inr NaN"

text \<open>
  \<^verbatim>\<open>x ** n\<close> for a float \<open>x\<close> and an \<^verbatim>\<open>int\<close> \<open>n \<ge> 0\<close>: the exact power, rounded; Python
  raises \<^verbatim>\<open>OverflowError\<close> where the result is out of range instead of returning an
  infinity.  (Python takes the power from the C library, whose last bit may differ from
  the correctly rounded one; no theorem below depends on that bit.)
\<close>

fun fpow :: "pyfloat \<Rightarrow> nat \<Rightarrow> py_error + pyfloat" where
  "fpow x 0 = Inr (Fin 1)"
| "fpow (Fin a) n =
     (case round_double (a ^ n) of
        Fin p \<Rightarrow> Inr (Fin p)
      | _ \<Rightarrow> Inl OverflowError)"
| "fpow PosInf n = Inr PosInf"
| "fpow NegInf n = Inr (if even n then PosInf else NegInf)"
| "fpow NaN n = Inr NaN"

text \<open>The comparison \<^verbatim>\<open>x < y\<close>; every comparison with NaN is false.\<close>

fun flt :: "pyfloat \<Rightarrow> pyfloat \<Rightarrow> bool" where
  "flt (Fin a) (Fin b) = (a < b)"
| "flt NaN y = False"
| "flt x NaN = False"
| "flt x NegInf = False"
| "flt PosInf y = False"
| "flt x PosInf = True"
| "flt NegInf y = True"

text \<open>
  \<^verbatim>\<open>sum(xs)\<close>: from the \<^verbatim>\<open>int\<close> 0, adding from left to right, as the library
  reference says.  (CPython from 3.12 on adds floats with a compensated algorithm, whose
  result can differ in the last bit; that is not modelled.)
\<close>

definition py_sum :: "pyfloat list \<Rightarrow> pyfloat" where
  "py_sum xs = foldl fadd (Fin 0) xs"

section \<open>Strings\<close>

text \<open>
  A Python string is modelled as a list of characters with code points below 256.
  \<^verbatim>\<open>str.strip()\<close> removes the white space of \<^verbatim>\<open>str.isspace\<close> at both ends: the
  code points 9 to 13, 28 to 32, 133 and 160.
\<close>

definition is_space :: "char \<Rightarrow> bool" where
  "is_space c = (of_char c \<in> set [9, 10, 11, 12, 13, 28, 29, 30, 31, 32, 133, 160 :: nat])"

definition strip :: "string \<Rightarrow> string" where
  "strip s = rev (dropWhile is_space (rev (dropWhile is_space s)))"

text \<open>\<^verbatim>\<open>s.split(',')\<close>: the pieces between the separators, empty pieces kept.\<close>

fun split :: "char \<Rightarrow> string \<Rightarrow> string list" where
  "split d [] = [[]]"
| "split d (c # cs) =
     (if c = d then [] # split d cs
      else case split d cs of
        t # ts \<Rightarrow> (c # t) # ts
      | [] \<Rightarrow> [[c]])"

subsection \<open>The builtin \<^verbatim>\<open>float(str)\<close>\<close>

text \<open>
  The grammar of the Python library reference for \<^verbatim>\<open>float\<close>:
  \<^verbatim>\<open>
  sign          ::= "+" | "-"
  infinity      ::= "Infinity" | "inf"
  nan           ::= "nan"
  digitpart     ::= digit (["_"] digit)*
  number        ::= [digitpart] "." digitpart | digitpart ["."]
  exponent      ::= ("e" | "E") [sign] digitpart
  floatnumber   ::= number [exponent]
  absfloatvalue ::= floatnumber | infinity | nan
  floatvalue    ::= [sign] absfloatvalue
  \<close>
  Case is not significant, white space around the literal is dropped, and anything else
  raises \<^verbatim>\<open>ValueError\<close>, which is \<open>None\<close> here.  A literal out of the range of the
  doubles gives an infinity.
\<close>

definition is_digit :: "char \<Rightarrow> bool" where
  "is_digit c = (c \<in> set ''0123456789'')"

definition digit_val :: "char \<Rightarrow> nat" where
  "digit_val c = of_char c - 48"

definition digits_val :: "string \<Rightarrow> nat" where
  "digits_val ds = foldl (\<lambda>n c. 10 * n + digit_val c) 0 ds"

definition to_lower :: "char \<Rightarrow> char" where
  "to_lower c =
     (case map_of (zip ''ABCDEFGHIJKLMNOPQRSTUVWXYZ'' ''abcdefghijklmnopqrstuvwxyz'') c of
        Some l \<Rightarrow> l
      | None \<Rightarrow> c)"

text \<open>
  An underscore is allowed between two digits only; the underscores are dropped.  The
  first argument is the previous character.
\<close>

fun strip_underscores :: "char \<Rightarrow> string \<Rightarrow> string option" where
  "strip_underscores prev [] = (if prev = CHR ''_'' then None else Some [])"
| "strip_underscores prev (c # cs) =
     (if c = CHR ''_'' then (if is_digit prev then strip_underscores c cs else None)
      else if prev = CHR ''_'' \<and> \<not> is_digit c then None
      else map_option ((#) c) (strip_underscores c cs))"

text \<open>The exponent part, after the \<^verbatim>\<open>e\<close>: an optional sign and at least one digit.\<close>

definition parse_exponent :: "string \<Rightarrow> int option" where
  "parse_exponent s =
     (let (neg, ds) = (case s of
          c # t \<Rightarrow> if c = CHR ''-'' then (True, t) else if c = CHR ''+'' then (False, t)
                   else (False, s)
        | [] \<Rightarrow> (False, s))
      in if ds \<noteq> [] \<and> list_all is_digit ds
         then Some (if neg then - int (digits_val ds) else int (digits_val ds))
         else None)"

text \<open>An unsigned \<^verbatim>\<open>floatnumber\<close> and its exact value.\<close>

definition parse_decimal :: "string \<Rightarrow> rat option" where
  "parse_decimal s =
     (let ip = takeWhile is_digit s;
          r1 = dropWhile is_digit s;
          (fp, r2) = (case r1 of
              c # t \<Rightarrow> if c = CHR ''.'' then (takeWhile is_digit t, dropWhile is_digit t)
                       else ([], r1)
            | [] \<Rightarrow> ([], []))
      in if ip = [] \<and> fp = [] then None
         else case r2 of
           [] \<Rightarrow> Some (of_nat (digits_val (ip @ fp)) * 10 powi (- int (length fp)))
         | c # t \<Rightarrow>
             if c = CHR ''e'' \<or> c = CHR ''E''
             then map_option
                    (\<lambda>e. of_nat (digits_val (ip @ fp)) * 10 powi (e - int (length fp)))
                    (parse_exponent t)
             else None)"

definition parse_float_literal :: "string \<Rightarrow> pyfloat option" where
  "parse_float_literal s =
     (let (neg, body) = (case s of
          c # t \<Rightarrow> if c = CHR ''-'' then (True, t) else if c = CHR ''+'' then (False, t)
                   else (False, s)
        | [] \<Rightarrow> (False, s))
      in if map to_lower body = ''inf'' \<or> map to_lower body = ''infinity''
         then Some (if neg then NegInf else PosInf)
         else if map to_lower body = ''nan'' then Some NaN
         else map_option (\<lambda>q. round_double (if neg then - q else q)) (parse_decimal body))"

definition py_float :: "string \<Rightarrow> pyfloat option" where
  "py_float s =
     (case strip_underscores (CHR 0x00) (strip s) of
        None \<Rightarrow> None
      | Some t \<Rightarrow> parse_float_literal t)"

section \<open>The callback \<^verbatim>\<open>calculate_npv\<close>\<close>

subsection \<open>Validation of the inputs (lines 117 to 128)\<close>

text \<open>
  The four messages that \<^verbatim>\<open>error_message\<close> can hold, in the order of the source:
  the discount rate is missing or negative, the investment is missing or negative,
  "at least one cash flow", and "valid cash flows separated by commas".
\<close>

datatype validation_error =
  InvalidDiscountRate | InvalidInvestment | EmptyCashFlows | InvalidCashFlows

text \<open>
  The list comprehension \<^verbatim>\<open>[float(c.strip()) for c in cash_flows.split(',')]\<close>: the
  first token that \<^verbatim>\<open>float\<close> refuses raises \<^verbatim>\<open>ValueError\<close>.
\<close>

fun parse_tokens :: "string list \<Rightarrow> pyfloat list option" where
  "parse_tokens [] = Some []"
| "parse_tokens (c # cs) =
     (case py_float (strip c) of
        None \<Rightarrow> None
      | Some x \<Rightarrow> map_option ((#) x) (parse_tokens cs))"

text \<open>
  A number of the form is \<open>None\<close> when the field is empty.  The result is the message, or
  \<^verbatim>\<open>cash_flows_list\<close> when \<^verbatim>\<open>error_message\<close> stays \<^verbatim>\<open>None\<close>.
\<close>

definition validate ::
  "pyfloat option \<Rightarrow> pyfloat option \<Rightarrow> string \<Rightarrow> validation_error + pyfloat list" where
  "validate discount_rate initial_investment cash_flows =
     (if discount_rate = None \<or> flt (the discount_rate) (Fin 0) then Inl InvalidDiscountRate
      else if initial_investment = None \<or> flt (the initial_investment) (Fin 0)
        then Inl InvalidInvestment
      else case parse_tokens (split (CHR '','') cash_flows) of
          None \<Rightarrow> Inl InvalidCashFlows
        | Some cash_flows_list \<Rightarrow>
            if length cash_flows_list = 0 then Inl EmptyCashFlows else Inr cash_flows_list)"

subsection \<open>The computation (lines 139 to 182)\<close>

text \<open>
  Line 143, \<^verbatim>\<open>cash_flow / ((1 + discount_rate_decimal) ** (i + 1))\<close>, for the index
  \<open>i\<close> of \<^verbatim>\<open>enumerate\<close>, which counts from 0.
\<close>

definition discounted :: "pyfloat \<Rightarrow> nat \<Rightarrow> pyfloat \<Rightarrow> py_error + pyfloat" where
  "discounted discount_rate_decimal i cash_flow =
     (case fpow (fadd (Fin 1) discount_rate_decimal) (i + 1) of
        Inl e \<Rightarrow> Inl e
      | Inr p \<Rightarrow> fdiv cash_flow p)"

text \<open>
  The loop of lines 142 to 145 over \<^verbatim>\<open>enumerate(cash_flows_list)\<close>; its state is
  \<^verbatim>\<open>npv\<close> and \<^verbatim>\<open>discounted_cash_flows\<close>, and an exception ends it.
\<close>

fun discount_loop ::
  "pyfloat \<Rightarrow> nat \<Rightarrow> pyfloat list \<Rightarrow> pyfloat \<times> pyfloat list \<Rightarrow>
   py_error + pyfloat \<times> pyfloat list" where
  "discount_loop r i [] (npv, dcf) = Inr (npv, dcf)"
| "discount_loop r i (cash_flow # rest) (npv, dcf) =
     (case discounted r i cash_flow of
        Inl e \<Rightarrow> Inl e
      | Inr d \<Rightarrow> discount_loop r (i + 1) rest (fadd npv d, dcf @ [d]))"

record calculation_result =
  years :: "nat list"
  discounted_cash_flows :: "pyfloat list"
  cumulative_values :: "pyfloat list"
  npv :: pyfloat
  viable :: bool

definition compute_npv :: "pyfloat \<Rightarrow> pyfloat \<Rightarrow> pyfloat list \<Rightarrow> py_error + calculation_result" where
  "compute_npv discount_rate initial_investment cash_flows_list =
     (case fdiv discount_rate (Fin 100) of
        Inl e \<Rightarrow> Inl e
      | Inr discount_rate_decimal \<Rightarrow>
          (case discount_loop discount_rate_decimal 0 cash_flows_list
                  (fneg initial_investment, []) of
             Inl e \<Rightarrow> Inl e
           | Inr (npv', dcf) \<Rightarrow>
               (let cumulative_cash_flows = fneg initial_investment # dcf
                in Inr \<lparr> years = [1 ..< length cash_flows_list + 1],
                         discounted_cash_flows = dcf,
                         cumulative_values =
                           map (\<lambda>i. py_sum (take (i + 1) cumulative_cash_flows))
                             [0 ..< length cumulative_cash_flows],
                         npv = npv',
                         viable = flt (Fin 0) npv' \<rparr>)))"

text \<open>
  What the callback gives back: nothing (\<^verbatim>\<open>PreventUpdate\<close>), two empty figures and a
  red alert with the message, an exception, or the bar chart (years against the cash
  flows), the line chart (0 and the years against the cumulative values) and the alert
  (green exactly when the project is viable, with the NPV in its text).
\<close>

datatype outcome =
  PreventUpdate
| ErrorAlert validation_error
| Raised py_error
| Updated "nat list \<times> pyfloat list" "nat list \<times> pyfloat list" "bool \<times> pyfloat"

definition calculate_npv ::
  "nat option \<Rightarrow> pyfloat option \<Rightarrow> pyfloat option \<Rightarrow> string \<Rightarrow> outcome" where
  "calculate_npv n_clicks discount_rate initial_investment cash_flows =
     (if n_clicks = None then PreventUpdate
      else case validate discount_rate initial_investment cash_flows of
        Inl error_message \<Rightarrow> ErrorAlert error_message
      | Inr cash_flows_list \<Rightarrow>
          (case compute_npv (the discount_rate) (the initial_investment) cash_flows_list of
             Inl e \<Rightarrow> Raised e
           | Inr res \<Rightarrow>
               Updated (years res, cash_flows_list)
                       (0 # years res, cumulative_values res)
                       (viable res, npv res)))"

section \<open>Notions of the specification\<close>

text \<open>A number of the form is invalid when it is missing or negative.\<close>

definition missing_or_negative :: "pyfloat option \<Rightarrow> bool" where
  "missing_or_negative x = (case x of None \<Rightarrow> True | Some v \<Rightarrow> flt v (Fin 0))"

text \<open>
  The raw string parses into one or more finite numbers, after splitting on commas and
  trimming the white space around each token.
\<close>

definition parses_to_finite_numbers :: "string \<Rightarrow> bool" where
  "parses_to_finite_numbers s =
     (let tokens = map strip (split (CHR '','') s)
      in tokens \<noteq> [] \<and> list_all (\<lambda>t. case py_float t of Some (Fin q) \<Rightarrow> True | _ \<Rightarrow> False) tokens)"

text \<open>A finite float that is not negative.\<close>

definition finite_nonneg :: "pyfloat \<Rightarrow> bool" where
  "finite_nonneg x = (case x of Fin q \<Rightarrow> 0 \<le> q \<and> is_double q | _ \<Rightarrow> False)"

definition finite_float :: "pyfloat \<Rightarrow> bool" where
  "finite_float x = (case x of Fin q \<Rightarrow> is_double q | _ \<Rightarrow> False)"

text \<open>Every cash flow is greater than zero.\<close>

definition all_positive :: "pyfloat list \<Rightarrow> bool" where
  "all_positive cash_flows_list = list_all (\<lambda>c. flt (Fin 0) c) cash_flows_list"

text \<open>
  A valid \<^verbatim>\<open>CalculationInput\<close>: the rate and the investment are not negative, and
  there is at least one cash flow, all of them finite.
\<close>

definition valid_input :: "pyfloat \<Rightarrow> pyfloat \<Rightarrow> pyfloat list \<Rightarrow> bool" where
  "valid_input discount_rate initial_investment cash_flows_list =
     (finite_nonneg discount_rate \<and> finite_nonneg initial_investment \<and>
      cash_flows_list \<noteq> [] \<and> list_all finite_float cash_flows_list)"

section \<open>Rounding\<close>

text \<open>
  Rounding to a double is monotone on the positive rationals, keeps 1 and the dyadic
  numbers with 53 significant bits, and gives an infinity from \<open>2 ^ 1024\<close> on.
\<close>

lemma rhe_of_int: "rhe (of_int n) = n"
  by (simp add: rhe_def)

lemma rhe_cases: "rhe x = \<lfloor>x\<rfloor> \<or> rhe x = \<lfloor>x\<rfloor> + 1"
  by (simp add: rhe_def Let_def)

lemma rhe_near:
  assumes "\<bar>x - of_int n\<bar> < 1 / 2"
  shows "rhe x = n"
proof -
  have lo: "of_int n - 1 / 2 < x" and hi: "x < of_int n + 1 / 2"
    using assms by linarith+
  have "\<lfloor>x\<rfloor> = n \<or> \<lfloor>x\<rfloor> = n - 1"
  proof (cases "of_int n \<le> x")
    case True
    then have "\<lfloor>x\<rfloor> = n" using hi by (intro floor_unique) auto
    then show ?thesis by simp
  next
    case False
    then have "\<lfloor>x\<rfloor> = n - 1" using lo by (intro floor_unique) auto
    then show ?thesis by simp
  qed
  then show ?thesis
  proof
    assume f: "\<lfloor>x\<rfloor> = n"
    then show ?thesis using hi by (simp add: rhe_def Let_def)
  next
    assume f: "\<lfloor>x\<rfloor> = n - 1"
    then show ?thesis using lo by (simp add: rhe_def Let_def)
  qed
qed

lemma rhe_mono:
  assumes "x \<le> y"
  shows "rhe x \<le> rhe y"
proof (cases "\<lfloor>x\<rfloor> < \<lfloor>y\<rfloor>")
  case True
  have "rhe x \<le> \<lfloor>x\<rfloor> + 1" using rhe_cases [of x] by auto
  moreover have "\<lfloor>y\<rfloor> \<le> rhe y" using rhe_cases [of y] by auto
  ultimately show ?thesis using True by linarith
next
  case False
  then have eq: "\<lfloor>x\<rfloor> = \<lfloor>y\<rfloor>" using floor_mono [OF assms] by linarith
  show ?thesis using assms unfolding rhe_def Let_def eq by auto
qed

lemma int_le_pow_rat: "(i::int) \<le> 2 ^ n \<Longrightarrow> (of_int i :: rat) \<le> 2 ^ n"
  by (metis of_int_le_iff of_int_numeral of_int_power)

lemma pow_le_int_rat: "2 ^ n \<le> (i::int) \<Longrightarrow> 2 ^ n \<le> (of_int i :: rat)"
  by (metis of_int_le_iff of_int_numeral of_int_power)

lemma powi2_neg: "0 \<le> m \<Longrightarrow> (2::rat) powi (- m) = 1 / 2 ^ nat m"
  by (simp add: power_int_minus power_int_def field_simps)

lemma ilog2_ge1:
  assumes "1 \<le> a"
  shows "2 powi ilog2 a \<le> a" "a < 2 powi (ilog2 a + 1)"
proof -
  let ?f = "\<lfloor>a\<rfloor>"
  have fpos: "0 < ?f" using assms by simp
  have b1: "1 \<le> bitlen ?f" using fpos by (simp add: bitlen_alt_def)
  from bitlen_bounds [OF fpos]
  have lo: "2 ^ nat (bitlen ?f - 1) \<le> ?f" and hi: "?f < 2 ^ nat (bitlen ?f)" by auto
  have il: "ilog2 a = bitlen ?f - 1" using assms by (simp add: ilog2_def)
  have "(2::rat) powi ilog2 a = 2 ^ nat (bitlen ?f - 1)"
    using b1 by (simp add: il power_int_def)
  also have "\<dots> \<le> of_int ?f" using lo by (rule pow_le_int_rat)
  also have "\<dots> \<le> a" by simp
  finally show "2 powi ilog2 a \<le> a" .
  have "?f + 1 \<le> 2 ^ nat (bitlen ?f)" using hi by simp
  then have "(of_int (?f + 1)::rat) \<le> 2 ^ nat (bitlen ?f)" by (rule int_le_pow_rat)
  moreover have "a < of_int (?f + 1)" by linarith
  ultimately have "a < 2 ^ nat (bitlen ?f)" by linarith
  also have "\<dots> = 2 powi (ilog2 a + 1)" using b1 by (simp add: il power_int_def)
  finally show "a < 2 powi (ilog2 a + 1)" .
qed

lemma ilog2_lt1:
  assumes "0 < a" "a < 1"
  shows "2 powi ilog2 a \<le> a" "a < 2 powi (ilog2 a + 1)"
proof -
  let ?c = "\<lceil>1 / a\<rceil> - 1"
  have b: "1 < 1 / a" using assms by simp
  have cpos: "0 < ?c" using b by (simp add: less_ceiling_iff)
  have clt: "of_int ?c < 1 / a" by linarith
  have cge: "1 / a \<le> of_int ?c + 1" by linarith
  have b1: "1 \<le> bitlen ?c" using cpos by (simp add: bitlen_alt_def)
  from bitlen_bounds [OF cpos]
  have lo: "2 ^ nat (bitlen ?c - 1) \<le> ?c" and hi: "?c < 2 ^ nat (bitlen ?c)" by auto
  have il: "ilog2 a = - bitlen ?c" using assms by (simp add: ilog2_def)
  have "?c + 1 \<le> 2 ^ nat (bitlen ?c)" using hi by simp
  then have "(of_int (?c + 1)::rat) \<le> 2 ^ nat (bitlen ?c)" by (rule int_le_pow_rat)
  then have "1 / a \<le> 2 ^ nat (bitlen ?c)" using cge by linarith
  then have "1 \<le> 2 ^ nat (bitlen ?c) * a" using assms by (simp add: field_simps)
  then have "1 / 2 ^ nat (bitlen ?c) \<le> a" by (simp add: field_simps)
  moreover have "(2::rat) powi ilog2 a = 1 / 2 ^ nat (bitlen ?c)"
    using b1 powi2_neg [of "bitlen ?c"] by (simp add: il)
  ultimately show "2 powi ilog2 a \<le> a" by simp
  have "2 ^ nat (bitlen ?c - 1) \<le> (of_int ?c :: rat)" using lo by (rule pow_le_int_rat)
  then have "2 ^ nat (bitlen ?c - 1) < 1 / a" using clt by linarith
  then have "2 ^ nat (bitlen ?c - 1) * a < 1" using assms by (simp add: field_simps)
  then have "a < 1 / 2 ^ nat (bitlen ?c - 1)" by (simp add: field_simps)
  moreover have "(2::rat) powi (ilog2 a + 1) = 1 / 2 ^ nat (bitlen ?c - 1)"
  proof -
    have "ilog2 a + 1 = - (bitlen ?c - 1)" by (simp add: il)
    then show ?thesis using b1 powi2_neg [of "bitlen ?c - 1"] by simp
  qed
  ultimately show "a < 2 powi (ilog2 a + 1)" by simp
qed

lemma ilog2_bounds:
  assumes "0 < a"
  shows "2 powi ilog2 a \<le> a" "a < 2 powi (ilog2 a + 1)"
  using assms ilog2_ge1 [of a] ilog2_lt1 [of a] by (cases "1 \<le> a"; simp)+

lemma powi2_mono: "i \<le> j \<Longrightarrow> (2::rat) powi i \<le> 2 powi j"
  by (rule power_int_increasing) simp_all

lemma powi2_less_imp: "(2::rat) powi i < 2 powi j \<Longrightarrow> i < j"
  using powi2_mono [of j i] by (cases "i < j") auto

lemma ilog2_unique:
  assumes "2 powi k \<le> a" "a < 2 powi (k + 1)"
  shows "ilog2 a = k"
proof -
  have "0 < (2::rat) powi k" by simp
  then have pos: "0 < a" using assms(1) by linarith
  note b = ilog2_bounds [OF pos]
  have "(2::rat) powi k < 2 powi (ilog2 a + 1)" using assms(1) b(2) by linarith
  then have 1: "k < ilog2 a + 1" by (rule powi2_less_imp)
  have "(2::rat) powi ilog2 a < 2 powi (k + 1)" using assms(2) b(1) by linarith
  then have 2: "ilog2 a < k + 1" by (rule powi2_less_imp)
  show ?thesis using 1 2 by simp
qed

lemma ulp_pos: "0 < ulp a"
  by (simp add: ulp_def)

lemma ilog2_mono:
  assumes "0 < a" "a \<le> b"
  shows "ilog2 a \<le> ilog2 b"
proof -
  have "0 < b" using assms by simp
  from ilog2_bounds(1) [OF assms(1)] ilog2_bounds(2) [OF this] assms(2)
  have "(2::rat) powi ilog2 a < 2 powi (ilog2 b + 1)" by linarith
  then have "ilog2 a < ilog2 b + 1" by (rule powi2_less_imp)
  then show ?thesis by simp
qed

lemma powi2_split: "(2::rat) powi (e + 1) = 2 ^ 53 * 2 powi (e - 52)"
proof -
  have "e + 1 = 53 + (e - 52)" by simp
  then have "(2::rat) powi (e + 1) = 2 powi (53 + (e - 52))" by (simp only:)
  also have "\<dots> = 2 powi 53 * 2 powi (e - 52)" by (subst power_int_add) simp_all
  finally show ?thesis by simp
qed

lemma powi2_split': "(2::rat) powi e = 2 ^ 52 * 2 powi (e - 52)"
proof -
  have "e = 52 + (e - 52)" by simp
  then have "(2::rat) powi e = 2 powi (52 + (e - 52))" by (simp only:)
  also have "\<dots> = 2 powi 52 * 2 powi (e - 52)" by (subst power_int_add) simp_all
  finally show ?thesis by simp
qed

lemma round_mag_upper:
  assumes "0 < a"
  shows "round_mag a \<le> 2 powi (max (ilog2 a) (- 1022) + 1)"
proof -
  let ?E = "max (ilog2 a) (- 1022)"
  have "a < 2 powi (ilog2 a + 1)" by (rule ilog2_bounds(2) [OF assms])
  also have "\<dots> \<le> 2 powi (?E + 1)" by (rule powi2_mono) simp
  finally have "a < 2 ^ 53 * ulp a" by (simp add: ulp_def powi2_split [of ?E])
  then have "a / ulp a \<le> 2 ^ 53" using ulp_pos [of a] by (simp add: field_simps)
  then have "a / ulp a \<le> of_int (2 ^ 53)" by simp
  from rhe_mono [OF this] have "rhe (a / ulp a) \<le> 2 ^ 53" by (simp only: rhe_of_int)
  then have "(of_int (rhe (a / ulp a)) :: rat) \<le> 2 ^ 53" by (rule int_le_pow_rat)
  then have "round_mag a \<le> 2 ^ 53 * ulp a"
    unfolding round_mag_def using ulp_pos [of a] by (simp add: mult_right_mono)
  then show ?thesis by (simp add: ulp_def powi2_split [of ?E])
qed

lemma round_mag_lower:
  assumes "0 < a" "- 1022 \<le> ilog2 a"
  shows "2 powi ilog2 a \<le> round_mag a"
proof -
  have u: "ulp a = 2 powi (ilog2 a - 52)" using assms(2) by (simp add: ulp_def max_def)
  have "2 powi ilog2 a \<le> a" by (rule ilog2_bounds(1) [OF assms(1)])
  then have "2 ^ 52 * ulp a \<le> a" by (simp add: u powi2_split' [of "ilog2 a"])
  then have "2 ^ 52 \<le> a / ulp a" using ulp_pos [of a] by (simp add: field_simps)
  then have "of_int (2 ^ 52) \<le> a / ulp a" by simp
  from rhe_mono [OF this] have "2 ^ 52 \<le> rhe (a / ulp a)" by (simp only: rhe_of_int)
  then have "2 ^ 52 \<le> (of_int (rhe (a / ulp a)) :: rat)" by (rule pow_le_int_rat)
  then have "2 ^ 52 * ulp a \<le> round_mag a"
    unfolding round_mag_def using ulp_pos [of a] by (simp add: mult_right_mono)
  then show ?thesis by (simp add: u powi2_split' [of "ilog2 a"])
qed

lemma round_mag_mono:
  assumes "0 < a" "a \<le> b"
  shows "round_mag a \<le> round_mag b"
proof -
  let ?Ea = "max (ilog2 a) (- 1022)" and ?Eb = "max (ilog2 b) (- 1022)"
  have bpos: "0 < b" using assms by simp
  have le: "?Ea \<le> ?Eb" using ilog2_mono [OF assms] by simp
  show ?thesis
  proof (cases "?Ea = ?Eb")
    case True
    then have u: "ulp a = ulp b" by (simp add: ulp_def)
    have "a / ulp b \<le> b / ulp b" using assms(2) ulp_pos [of b] by (simp add: divide_right_mono)
    from rhe_mono [OF this] have "(of_int (rhe (a / ulp b)) :: rat) \<le> of_int (rhe (b / ulp b))"
      by simp
    then show ?thesis unfolding round_mag_def u using ulp_pos [of b] by (simp add: mult_right_mono)
  next
    case False
    then have lt: "?Ea + 1 \<le> ?Eb" using le by simp
    then have eb: "?Eb = ilog2 b" and ge: "- 1022 \<le> ilog2 b" by (auto simp: max_def split: if_splits)
    have "round_mag a \<le> 2 powi (?Ea + 1)" by (rule round_mag_upper [OF assms(1)])
    also have "\<dots> \<le> 2 powi ?Eb" by (rule powi2_mono [OF lt])
    also have "\<dots> = 2 powi ilog2 b" by (simp only: eb)
    also have "\<dots> \<le> round_mag b" by (rule round_mag_lower [OF bpos ge])
    finally show ?thesis .
  qed
qed

lemma round_mag_exact:
  assumes "0 < a" "a / ulp a = of_int n"
  shows "round_mag a = a"
proof -
  have "a = of_int n * ulp a" using assms(2) ulp_pos [of a] by (simp add: field_simps)
  then show ?thesis by (simp add: round_mag_def assms(2) rhe_of_int)
qed

lemma ulp_1: "ulp 1 = 2 powi (- 52)"
proof -
  have "ilog2 1 = 0" by (rule ilog2_unique) simp_all
  then show ?thesis by (simp add: ulp_def)
qed

lemma round_mag_1: "round_mag 1 = 1"
proof (rule round_mag_exact)
  show "(1::rat) / ulp 1 = of_int (2 ^ 52)"
    by (simp add: ulp_1 power_int_minus)
qed simp

lemma huge_gt1: "1 < huge"
  by (simp add: huge_def)

lemma round_double_1: "round_double 1 = Fin 1"
  using huge_gt1 by (simp add: round_double_def round_mag_1)

lemma round_double_ge1:
  assumes "1 \<le> q"
  shows "round_double q = PosInf \<or> (\<exists>p. round_double q = Fin p \<and> 1 \<le> p)"
proof -
  have "round_mag 1 \<le> round_mag q" by (rule round_mag_mono) (use assms in simp_all)
  then have "1 \<le> round_mag q" by (simp add: round_mag_1)
  then show ?thesis using assms by (simp add: round_double_def)
qed

lemma round_double_overflow:
  assumes "huge \<le> q"
  shows "round_double q = PosInf"
proof -
  have "0 < huge" using huge_gt1 by simp
  then have pos: "0 < q" using assms by linarith
  have "(2::rat) powi 1024 \<le> q" using assms by (simp add: huge_def)
  also have "q < 2 powi (ilog2 q + 1)" by (rule ilog2_bounds(2) [OF pos])
  finally have "1024 < ilog2 q + 1" by (rule powi2_less_imp)
  then have ge: "1024 \<le> ilog2 q" by simp
  have "huge = 2 powi 1024" by (simp add: huge_def)
  also have "\<dots> \<le> 2 powi ilog2 q" by (rule powi2_mono [OF ge])
  also have "\<dots> \<le> round_mag q" by (rule round_mag_lower [OF pos]) (use ge in simp)
  finally show ?thesis using pos by (simp add: round_double_def)
qed

lemma round_double_le:
  assumes "0 < q" "q \<le> c" "is_double c"
  shows "\<exists>p. round_double q = Fin p \<and> 0 \<le> p \<and> p \<le> c"
proof -
  have cpos: "0 < c" using assms by simp
  have c: "round_mag c = c" "round_mag c < huge"
    using assms(3) cpos by (auto simp: is_double_def round_double_def split: if_splits)
  have le: "round_mag q \<le> c" using round_mag_mono [OF assms(1,2)] c by simp
  have "(0::rat) \<le> q / ulp q" using assms(1) ulp_pos [of q] by simp
  then have "of_int 0 \<le> q / ulp q" by simp
  from rhe_mono [OF this] have "0 \<le> rhe (q / ulp q)" by (simp only: rhe_of_int)
  then have "0 \<le> round_mag q" using ulp_pos [of q] by (simp add: round_mag_def)
  moreover have "round_mag q < huge" using le c by linarith
  ultimately show ?thesis using assms(1) le by (simp add: round_double_def)
qed

lemma round_mag_dyadic:
  assumes "0 < n" "n < 2 ^ 53" "- 1074 \<le> k"
  shows "round_mag (of_int n * 2 powi k) = of_int n * 2 powi k"
proof -
  let ?a = "of_int n * 2 powi k :: rat"
  let ?E = "max (ilog2 ?a) (- 1022)"
  have pos: "0 < ?a" using assms(1) by simp
  have "(of_int n :: rat) < 2 ^ 53" using assms(2) by (metis of_int_less_iff of_int_numeral of_int_power)
  then have "?a < 2 ^ 53 * 2 powi k" by (simp add: mult_strict_right_mono)
  also have "\<dots> = 2 powi (53 + k)" by (subst power_int_add) simp_all
  finally have lt: "?a < 2 powi (53 + k)" .
  have "2 powi ilog2 ?a \<le> ?a" by (rule ilog2_bounds(1) [OF pos])
  then have "(2::rat) powi ilog2 ?a < 2 powi (53 + k)" using lt by linarith
  then have "ilog2 ?a < 53 + k" by (rule powi2_less_imp)
  then have E: "?E \<le> 52 + k" using assms(3) by simp
  define m where "m = nat (52 + k - ?E)"
  have "k = int m + (?E - 52)" using E by (simp add: m_def)
  then have "(2::rat) powi k = 2 powi (int m + (?E - 52))" by (simp only:)
  also have "\<dots> = 2 powi (int m) * 2 powi (?E - 52)" by (subst power_int_add) simp_all
  finally have "(2::rat) powi k = 2 ^ m * ulp ?a" by (simp add: ulp_def)
  then have "?a = of_int (n * 2 ^ m) * ulp ?a" by simp
  then have "?a / ulp ?a = of_int (n * 2 ^ m)"
    using ulp_pos [of ?a] by (metis nonzero_mult_div_cancel_right less_irrefl)
  with pos show ?thesis by (rule round_mag_exact)
qed

lemma dyadic_lt_huge:
  assumes "0 < n" "n < 2 ^ 53" "k \<le> 971"
  shows "of_int n * 2 powi k < huge"
proof -
  have "(of_int n :: rat) < 2 ^ 53" using assms(2) by (metis of_int_less_iff of_int_numeral of_int_power)
  then have "of_int n * 2 powi k < 2 ^ 53 * (2::rat) powi k" by (simp add: mult_strict_right_mono)
  also have "\<dots> = 2 powi (53 + k)" by (subst power_int_add) simp_all
  also have "\<dots> \<le> 2 powi 1024" by (rule powi2_mono) (use assms(3) in simp)
  also have "\<dots> = huge" by (simp add: huge_def)
  finally show ?thesis .
qed

lemma round_double_dyadic:
  assumes "0 < n" "n < 2 ^ 53" "- 1074 \<le> k" "k \<le> 971"
  shows "round_double (of_int n * 2 powi k) = Fin (of_int n * 2 powi k)"
    and "round_double (- (of_int n * 2 powi k)) = Fin (- (of_int n * 2 powi k))"
proof -
  have pos: "0 < (of_int n * 2 powi k :: rat)" using assms(1) by simp
  show "round_double (of_int n * 2 powi k) = Fin (of_int n * 2 powi k)"
    using pos round_mag_dyadic [OF assms(1,2,3)] dyadic_lt_huge [OF assms(1,2,4)]
    by (simp add: round_double_def)
  have "\<not> 0 < - (of_int n * 2 powi k :: rat)" "- (of_int n * 2 powi k :: rat) \<noteq> 0"
    using pos by linarith+
  then show "round_double (- (of_int n * 2 powi k)) = Fin (- (of_int n * 2 powi k))"
    using round_mag_dyadic [OF assms(1,2,3)] dyadic_lt_huge [OF assms(1,2,4)]
    unfolding round_double_def by (simp del: neg_0_less_iff_less neg_equal_0_iff_equal)
qed

lemma round_double_0: "round_double 0 = Fin 0"
  by (simp add: round_double_def)

lemma round_double_numeral:
  "numeral w < (2::int) ^ 53 \<Longrightarrow> round_double (numeral w) = Fin (numeral w)"
  "numeral w < (2::int) ^ 53 \<Longrightarrow> round_double (- numeral w) = Fin (- numeral w)"
  using round_double_dyadic [of "numeral w" 0] by simp_all


lemma round_double_1_plus:
  assumes "0 \<le> p" "p < 2 powi (- 53)"
  shows "round_double (1 + p) = Fin 1"
proof -
  have p1: "p < 1"
  proof -
    have "(2::rat) powi (- 53) \<le> 2 powi 0" by (rule powi2_mono) simp
    then show ?thesis using assms(2) by simp
  qed
  have "ilog2 (1 + p) = 0" by (rule ilog2_unique) (use assms(1) p1 in simp_all)
  then have u: "ulp (1 + p) = 2 powi (- 52)" by (simp add: ulp_def)
  have "p * 2 ^ 52 < 2 powi (- 53) * 2 ^ 52" using assms(2) by (simp add: mult_strict_right_mono)
  also have "\<dots> = 1 / 2" by (simp add: power_int_minus)
  finally have small: "p * 2 ^ 52 < 1 / 2" .
  have "(1 + p) / ulp (1 + p) = of_int (2 ^ 52) + p * 2 ^ 52"
    by (simp add: u power_int_minus field_simps)
  moreover have "\<bar>of_int (2 ^ 52) + p * 2 ^ 52 - of_int (2 ^ 52)\<bar> < 1 / 2"
    using small assms(1) by simp
  ultimately have "rhe ((1 + p) / ulp (1 + p)) = 2 ^ 52" using rhe_near by metis
  then have "round_mag (1 + p) = 1" by (simp add: round_mag_def u power_int_minus)
  then show ?thesis using assms(1) huge_gt1 by (simp add: round_double_def)
qed

section \<open>The loop\<close>

text \<open>
  The loop returns the discounted flows in order and their sum from left to right; it
  fails exactly when the expression of line 143 fails for some period.
\<close>

lemma discount_loop_Inr:
  assumes "discount_loop r i cfs (acc, dcf) = Inr (acc', dcf')"
  shows "\<exists>ds. dcf' = dcf @ ds \<and> length ds = length cfs \<and> acc' = foldl fadd acc ds \<and>
          (\<forall>j < length cfs. discounted r (i + j) (cfs ! j) = Inr (ds ! j))"
  using assms
proof (induction cfs arbitrary: i acc dcf)
  case Nil
  then show ?case by simp
next
  case (Cons c cfs)
  from Cons.prems obtain d where
    d: "discounted r i c = Inr d" and
    rest: "discount_loop r (i + 1) cfs (fadd acc d, dcf @ [d]) = Inr (acc', dcf')"
    by (auto split: sum.splits)
  from Cons.IH [OF rest] obtain ds where
    ds: "dcf' = (dcf @ [d]) @ ds" "length ds = length cfs" "acc' = foldl fadd (fadd acc d) ds"
      "\<forall>j < length cfs. discounted r (i + 1 + j) (cfs ! j) = Inr (ds ! j)"
    by blast
  have "\<forall>j < length (c # cfs). discounted r (i + j) ((c # cfs) ! j) = Inr ((d # ds) ! j)"
  proof (intro allI impI)
    fix j assume "j < length (c # cfs)"
    then show "discounted r (i + j) ((c # cfs) ! j) = Inr ((d # ds) ! j)"
      using d ds(4) by (cases j) auto
  qed
  then show ?case using ds(1,2,3) by (intro exI [of _ "d # ds"]) simp
qed

lemma discount_loop_total:
  assumes "\<forall>j < length cfs. \<exists>d. discounted r (i + j) (cfs ! j) = Inr d"
  shows "\<exists>res. discount_loop r i cfs (acc, dcf) = Inr res"
  using assms
proof (induction cfs arbitrary: i acc dcf)
  case Nil
  then show ?case by simp
next
  case (Cons c cfs)
  from Cons.prems have "\<exists>d. discounted r (i + 0) ((c # cfs) ! 0) = Inr d" by blast
  then obtain d where d: "discounted r i c = Inr d" by auto
  have "\<forall>j < length cfs. \<exists>d. discounted r (i + 1 + j) (cfs ! j) = Inr d"
  proof (intro allI impI)
    fix j assume "j < length cfs"
    then have "Suc j < length (c # cfs)" by simp
    from Cons.prems [rule_format, OF this] show "\<exists>d. discounted r (i + 1 + j) (cfs ! j) = Inr d"
      by simp
  qed
  from Cons.IH [OF this] obtain res where
    "discount_loop r (i + 1) cfs (fadd acc d, dcf @ [d]) = Inr res" by blast
  then show ?case using d by simp
qed

lemma discount_loop_error:
  assumes "discount_loop r i cfs (acc, dcf) = Inl e"
  shows "\<exists>j < length cfs. discounted r (i + j) (cfs ! j) = Inl e"
  using assms
proof (induction cfs arbitrary: i acc dcf)
  case Nil
  then show ?case by simp
next
  case (Cons c cfs)
  show ?case
  proof (cases "discounted r i c")
    case (Inl e')
    then have "e' = e" using Cons.prems by simp
    then show ?thesis using Inl by (intro exI [of _ 0]) simp
  next
    case (Inr d)
    then have "discount_loop r (i + 1) cfs (fadd acc d, dcf @ [d]) = Inl e"
      using Cons.prems by simp
    from Cons.IH [OF this] obtain j where "j < length cfs" "discounted r (i + 1 + j) (cfs ! j) = Inl e"
      by blast
    then show ?thesis by (intro exI [of _ "Suc j"]) simp
  qed
qed

lemma fdiv_100: "\<exists>r. fdiv rate (Fin 100) = Inr r"
  by (cases rate) simp_all

lemma compute_npv_Inr:
  assumes "compute_npv rate investment cfs = Inr res"
  shows "\<exists>r. fdiv rate (Fin 100) = Inr r \<and>
           discount_loop r 0 cfs (fneg investment, []) = Inr (npv res, discounted_cash_flows res) \<and>
           years res = [1 ..< length cfs + 1] \<and>
           cumulative_values res =
             map (\<lambda>i. py_sum (take (i + 1) (fneg investment # discounted_cash_flows res)))
               [0 ..< length (discounted_cash_flows res) + 1] \<and>
           viable res = flt (Fin 0) (npv res)"
proof -
  obtain r where r: "fdiv rate (Fin 100) = Inr r" using fdiv_100 by blast
  show ?thesis
    using assms unfolding compute_npv_def r
    by (auto simp: Let_def split: sum.splits simp del: fdiv.simps)
qed

lemmas eval_simps =
  compute_npv_def discounted_def py_sum_def round_double_0 round_double_1 round_double_numeral

section \<open>Splitting and parsing\<close>

text \<open>
  \<^verbatim>\<open>split\<close> gives at least one token, and the parsed list is as long as the token list.
\<close>

lemma split_not_Nil: "split d s \<noteq> []"
  by (induction s) (auto split: list.splits)

lemma parse_tokens_length: "parse_tokens ts = Some xs \<Longrightarrow> length xs = length ts"
  by (induction ts arbitrary: xs) (auto split: option.splits)

lemma parse_tokens_None_iff: "parse_tokens ts = None \<longleftrightarrow> (\<exists>t \<in> set ts. py_float (strip t) = None)"
  by (induction ts) (auto split: option.splits)

lemma parse_tokens_split_not_Nil: "parse_tokens (split d s) \<noteq> Some []"
  using parse_tokens_length [of "split d s" "[]"] split_not_Nil [of d s] by auto

lemma strip_Nil: "strip [] = []"
  by (simp add: strip_def)

lemma py_float_Nil: "py_float [] = None"
  by (simp add: py_float_def strip_Nil parse_float_literal_def parse_decimal_def)

lemma validate_not_Empty: "validate r i s \<noteq> Inl EmptyCashFlows"
  using parse_tokens_split_not_Nil [of "CHR '',''" s]
  by (auto simp: validate_def split: option.splits)

section \<open>When the computation returns\<close>

text \<open>
  For a rate that is finite and not negative, \<open>1 + r\<close> is at least 1 after rounding, and
  so is every power of it that does not overflow: the divisions never fail, and a
  discounted flow is not above its cash flow.
\<close>

lemma rate_decimal_nonneg:
  assumes "finite_nonneg rate"
  shows "\<exists>p. fdiv rate (Fin 100) = Inr (Fin p) \<and> 0 \<le> p"
proof -
  from assms obtain q where q: "rate = Fin q" "0 \<le> q" "is_double q"
    by (cases rate) (auto simp: finite_nonneg_def)
  show ?thesis
  proof (cases "q = 0")
    case True
    then show ?thesis using q by (simp add: round_double_0)
  next
    case False
    then have "0 < q / 100" "q / 100 \<le> q" using q(2) by simp_all
    from round_double_le [OF this q(3)] show ?thesis using q(1) by auto
  qed
qed

lemma fpow_base_cases:
  assumes "0 \<le> p"
  shows "fpow (fadd (Fin 1) (Fin p)) (i + 1) = Inl OverflowError \<or>
         fpow (fadd (Fin 1) (Fin p)) (i + 1) = Inr PosInf \<or>
         (\<exists>q. fpow (fadd (Fin 1) (Fin p)) (i + 1) = Inr (Fin q) \<and> 1 \<le> q)"
proof -
  have "1 \<le> 1 + p" using assms by simp
  from round_double_ge1 [OF this] show ?thesis
  proof
    assume "round_double (1 + p) = PosInf"
    then show ?thesis by simp
  next
    assume "\<exists>b. round_double (1 + p) = Fin b \<and> 1 \<le> b"
    then obtain b where b: "round_double (1 + p) = Fin b" "1 \<le> b" by blast
    have "1 \<le> b ^ Suc i" using b(2) by (rule one_le_power)
    from round_double_ge1 [OF this] show ?thesis using b(1) by auto
  qed
qed

lemma fdiv_PosInf: "\<exists>d. fdiv c PosInf = Inr d"
  by (cases c) simp_all

lemma fdiv_Fin: "q \<noteq> 0 \<Longrightarrow> \<exists>d. fdiv c (Fin q) = Inr d"
  by (cases c) simp_all

lemma discounted_cases:
  assumes "0 \<le> p"
  shows "(discounted (Fin p) i c = Inl OverflowError \<and>
          fpow (fadd (Fin 1) (Fin p)) (i + 1) = Inl OverflowError) \<or>
         (fpow (fadd (Fin 1) (Fin p)) (i + 1) \<noteq> Inl OverflowError \<and>
          (\<exists>d. discounted (Fin p) i c = Inr d))"
  using fpow_base_cases [OF assms, of i]
proof (elim disjE exE conjE)
  assume "fpow (fadd (Fin 1) (Fin p)) (i + 1) = Inl OverflowError"
  then show ?thesis by (simp add: discounted_def del: fpow.simps fadd.simps)
next
  assume "fpow (fadd (Fin 1) (Fin p)) (i + 1) = Inr PosInf"
  then show ?thesis
    using fdiv_PosInf [of c] by (simp add: discounted_def del: fpow.simps fadd.simps fdiv.simps)
next
  fix q assume q: "fpow (fadd (Fin 1) (Fin p)) (i + 1) = Inr (Fin q)" "1 \<le> q"
  then have "q \<noteq> 0" by simp
  from fdiv_Fin [OF this, of c] show ?thesis
    using q(1) by (simp add: discounted_def del: fpow.simps fadd.simps fdiv.simps)
qed

lemma discounted_le:
  assumes "0 \<le> p" "0 < c" "is_double c" "discounted (Fin p) i (Fin c) = Inr d"
  shows "\<exists>d'. d = Fin d' \<and> 0 \<le> d' \<and> d' \<le> c"
  using fpow_base_cases [OF assms(1), of i]
proof (elim disjE exE conjE)
  assume "fpow (fadd (Fin 1) (Fin p)) (i + 1) = Inl OverflowError"
  then show ?thesis using assms(4) by (simp add: discounted_def del: fpow.simps fadd.simps)
next
  assume "fpow (fadd (Fin 1) (Fin p)) (i + 1) = Inr PosInf"
  then have "d = Fin 0" using assms(4) by (simp add: discounted_def del: fpow.simps fadd.simps)
  then show ?thesis using assms(2) by simp
next
  fix q assume q: "fpow (fadd (Fin 1) (Fin p)) (i + 1) = Inr (Fin q)" "1 \<le> q"
  then have d: "d = round_double (c / q)"
    using assms(4) by (simp add: discounted_def del: fpow.simps fadd.simps)
  have "0 < c / q" using assms(2) q(2) by simp
  moreover have "c / q \<le> c" using assms(2) q(2) by (simp add: field_simps)
  ultimately show ?thesis using round_double_le [OF _ _ assms(3)] d by simp
qed

lemma compute_npv_cases:
  assumes "fdiv rate (Fin 100) = Inr r"
  shows "(\<exists>res. compute_npv rate investment cfs = Inr res) \<longleftrightarrow>
           (\<forall>j < length cfs. \<exists>d. discounted r j (cfs ! j) = Inr d)"
    and "compute_npv rate investment cfs = Inl e \<Longrightarrow>
           \<exists>j < length cfs. discounted r j (cfs ! j) = Inl e"
proof -
  show "(\<exists>res. compute_npv rate investment cfs = Inr res) \<longleftrightarrow>
           (\<forall>j < length cfs. \<exists>d. discounted r j (cfs ! j) = Inr d)"
  proof
    assume "\<exists>res. compute_npv rate investment cfs = Inr res"
    then obtain res where res: "compute_npv rate investment cfs = Inr res" by blast
    from compute_npv_Inr [OF res] assms have
      "discount_loop r 0 cfs (fneg investment, []) = Inr (npv res, discounted_cash_flows res)"
      by auto
    from discount_loop_Inr [OF this] show "\<forall>j < length cfs. \<exists>d. discounted r j (cfs ! j) = Inr d"
      by auto
  next
    assume "\<forall>j < length cfs. \<exists>d. discounted r j (cfs ! j) = Inr d"
    then have "\<forall>j < length cfs. \<exists>d. discounted r (0 + j) (cfs ! j) = Inr d" by simp
    from discount_loop_total [OF this, of "fneg investment" "[]"]
    show "\<exists>res. compute_npv rate investment cfs = Inr res"
      unfolding compute_npv_def assms by (auto simp: Let_def)
  qed
  assume "compute_npv rate investment cfs = Inl e"
  then have "discount_loop r 0 cfs (fneg investment, []) = Inl e"
    unfolding compute_npv_def assms by (auto simp: Let_def split: sum.splits)
  from discount_loop_error [OF this] show "\<exists>j < length cfs. discounted r j (cfs ! j) = Inl e"
    by simp
qed

lemma compute_npv_valid:
  assumes "finite_nonneg rate"
  shows "\<exists>p. fdiv rate (Fin 100) = Inr (Fin p) \<and> 0 \<le> p \<and>
           compute_npv rate investment cfs \<noteq> Inl ZeroDivisionError \<and>
           (compute_npv rate investment cfs = Inl OverflowError \<longleftrightarrow>
              (\<exists>i < length cfs. fpow (fadd (Fin 1) (Fin p)) (i + 1) = Inl OverflowError))"
proof -
  from rate_decimal_nonneg [OF assms] obtain p where
    p: "fdiv rate (Fin 100) = Inr (Fin p)" "0 \<le> p" by blast
  note cases = compute_npv_cases [OF p(1), of investment cfs]
  note dc = discounted_cases [OF p(2)]
  have nz: "compute_npv rate investment cfs \<noteq> Inl ZeroDivisionError"
  proof
    assume "compute_npv rate investment cfs = Inl ZeroDivisionError"
    from cases(2) [OF this] obtain j where "discounted (Fin p) j (cfs ! j) = Inl ZeroDivisionError"
      by blast
    then show False using dc [of j "cfs ! j"] by auto
  qed
  have "compute_npv rate investment cfs = Inl OverflowError \<longleftrightarrow>
        (\<exists>i < length cfs. fpow (fadd (Fin 1) (Fin p)) (i + 1) = Inl OverflowError)"
  proof
    assume "compute_npv rate investment cfs = Inl OverflowError"
    from cases(2) [OF this] obtain j where
      j: "j < length cfs" "discounted (Fin p) j (cfs ! j) = Inl OverflowError" by blast
    then have "fpow (fadd (Fin 1) (Fin p)) (j + 1) = Inl OverflowError"
      using dc [of j "cfs ! j"] by auto
    with j(1) show "\<exists>i < length cfs. fpow (fadd (Fin 1) (Fin p)) (i + 1) = Inl OverflowError"
      by blast
  next
    assume "\<exists>i < length cfs. fpow (fadd (Fin 1) (Fin p)) (i + 1) = Inl OverflowError"
    then obtain i where i: "i < length cfs" "fpow (fadd (Fin 1) (Fin p)) (i + 1) = Inl OverflowError"
      by blast
    then have "\<not> (\<exists>d. discounted (Fin p) i (cfs ! i) = Inr d)"
      using dc [of i "cfs ! i"] by auto
    then have "\<not> (\<exists>res. compute_npv rate investment cfs = Inr res)"
      using cases(1) i(1) by blast
    then obtain e where e: "compute_npv rate investment cfs = Inl e"
      by (cases "compute_npv rate investment cfs") auto
    then show "compute_npv rate investment cfs = Inl OverflowError"
      using nz by (cases e) auto
  qed
  then show ?thesis using p nz by blast
qed

section \<open>The cumulative values\<close>



lemma cumulative_nth:
  assumes "compute_npv rate investment cfs = Inr res" "i \<le> length cfs"
  shows "cumulative_values res ! i = py_sum (fneg investment # take i (discounted_cash_flows res))"
    and "length (discounted_cash_flows res) = length cfs"
    and "length (cumulative_values res) = length cfs + 1"
    and "npv res = foldl fadd (fneg investment) (discounted_cash_flows res)"
proof -
  from compute_npv_Inr [OF assms(1)] obtain r where
    loop: "discount_loop r 0 cfs (fneg investment, []) = Inr (npv res, discounted_cash_flows res)" and
    cum: "cumulative_values res =
             map (\<lambda>i. py_sum (take (i + 1) (fneg investment # discounted_cash_flows res)))
               [0 ..< length (discounted_cash_flows res) + 1]"
    by blast
  from discount_loop_Inr [OF loop] obtain ds where
    ds: "discounted_cash_flows res = [] @ ds" "length ds = length cfs"
      "npv res = foldl fadd (fneg investment) ds" by blast
  show len: "length (discounted_cash_flows res) = length cfs" using ds by simp
  show "length (cumulative_values res) = length cfs + 1" by (simp add: cum len)
  show "npv res = foldl fadd (fneg investment) (discounted_cash_flows res)" using ds by simp
  have "i < length (discounted_cash_flows res) + 1" using assms(2) len by simp
  then have "cumulative_values res ! i =
      py_sum (take (i + 1) (fneg investment # discounted_cash_flows res))"
    unfolding cum by (simp only: nth_map length_upt diff_zero nth_upt add_0)
  then show "cumulative_values res ! i = py_sum (fneg investment # take i (discounted_cash_flows res))"
    by simp
qed

lemma valid_example: "valid_input (Fin 0) (Fin 5000) [Fin 1000, Fin 1000, Fin 1000]"
  by (simp add: valid_input_def finite_nonneg_def finite_float_def is_double_def
      round_double_0 round_double_numeral)

section \<open>Particular roundings\<close>

text \<open>
  The roundings that the examples below go through.
\<close>

lemma round_double_near:
  assumes "2 powi k \<le> a" "a < 2 powi (k + 1)" "- 1022 \<le> k"
    and "\<bar>a / 2 powi (k - 52) - of_int n\<bar> < 1 / 2"
    and "of_int n * 2 powi (k - 52) < huge"
  shows "round_double a = Fin (of_int n * 2 powi (k - 52))"
proof -
  have "0 < (2::rat) powi k" by simp
  then have pos: "0 < a" using assms(1) by linarith
  have "ilog2 a = k" using assms(1,2) by (rule ilog2_unique)
  then have u: "ulp a = 2 powi (k - 52)" using assms(3) by (simp add: ulp_def)
  have "rhe (a / ulp a) = n" unfolding u using assms(4) by (rule rhe_near)
  then have "round_mag a = of_int n * 2 powi (k - 52)" by (simp add: round_mag_def u)
  then show ?thesis using pos assms(5) by (simp add: round_double_def)
qed

lemma round_double_1e17:
  "round_double 100000000000000000 = Fin 100000000000000000"
  "round_double (- 100000000000000000) = Fin (- 100000000000000000)"
  using round_double_dyadic [of 6250000000000000 4] by simp_all

lemma round_double_1e17_plus_1: "round_double 100000000000000001 = Fin 100000000000000000"
  using round_double_near [of 56 100000000000000001 6250000000000000]
  by (simp add: huge_def)

lemma round_double_2_pow_minus_60:
  "round_double (1 / 2 ^ 60) = Fin (1 / 2 ^ 60)"
  using round_double_dyadic [of 1 "- 60"] by (simp add: power_int_minus)

lemma is_double_tiny_rate: "is_double (25 / 2 ^ 58)"
  using round_double_dyadic [of 25 "- 58"] by (simp add: power_int_minus is_double_def field_simps)

lemma round_double_one_plus_tiny: "round_double (1 + 1 / 2 ^ 60) = Fin 1"
  by (rule round_double_1_plus) (simp_all add: power_int_minus)

section \<open>Particular computations\<close>

text \<open>
  The power that overflows at a rate of 100 percent, and the discounted flows at a rate
  of 0.
\<close>

lemma list_all_replicate: "P x \<Longrightarrow> list_all P (replicate n x)"
  by (induction n) simp_all

lemma fpow_2_1024: "fpow (Fin 2) (1023 + 1) = Inl OverflowError"
proof -
  have "huge \<le> 2 ^ 1024" by (simp add: huge_def)
  then have "round_double (2 ^ 1024) = PosInf" by (rule round_double_overflow)
  moreover have "fpow (Fin 2) (Suc 1023) = (case round_double (2 ^ Suc 1023) of Fin p \<Rightarrow> Inr (Fin p) | _ \<Rightarrow> Inl OverflowError)"
    by (rule fpow.simps)
  moreover have "(2::rat) ^ Suc 1023 = 2 ^ 1024" by (simp only: power_Suc) simp
  ultimately show ?thesis by simp
qed

lemma compute_npv_discounted:
  assumes "compute_npv rate investment cfs = Inr res" "fdiv rate (Fin 100) = Inr r"
    "i < length cfs"
  shows "discounted r i (cfs ! i) = Inr (discounted_cash_flows res ! i)"
proof -
  from compute_npv_Inr [OF assms(1)] assms(2) have
    "discount_loop r 0 cfs (fneg investment, []) = Inr (npv res, discounted_cash_flows res)"
    by auto
  from discount_loop_Inr [OF this] assms(3) show ?thesis by auto
qed

lemma fpow_divisor_nonzero:
  assumes "0 \<le> p" "fpow (fadd (Fin 1) (Fin p)) (i + 1) = Inr q"
  shows "q \<noteq> Fin 0"
  using fpow_base_cases [OF assms(1), of i] assms(2) by auto

lemma discounted_zero_rate:
  assumes "finite_float c"
  shows "discounted (Fin 0) i c = Inr c"
proof -
  from assms obtain q where q: "c = Fin q" "is_double q"
    by (cases c) (auto simp: finite_float_def)
  have "fpow (fadd (Fin 1) (Fin 0)) (i + 1) = Inr (Fin 1)" by (simp add: round_double_1)
  then show ?thesis using q by (simp add: discounted_def is_double_def del: fpow.simps fadd.simps)
qed

section \<open>The strings that are refused\<close>

text \<open>
  Once the rate and the investment are valid, the message about invalid cash flows
  appears exactly when \<^verbatim>\<open>float\<close> refuses a token.
\<close>

lemmas parse_simps =
  py_float_def strip_def is_space_def is_digit_def parse_float_literal_def
  parse_decimal_def parse_exponent_def to_lower_def digits_val_def digit_val_def

lemma validate_InvalidCashFlows_iff:
  assumes "\<not> missing_or_negative r" "\<not> missing_or_negative i"
  shows "validate r i s = Inl InvalidCashFlows \<longleftrightarrow>
         (\<exists>t \<in> set (split (CHR '','') s). py_float (strip t) = None)"
proof -
  have v: "\<not> (r = None \<or> flt (the r) (Fin 0))" "\<not> (i = None \<or> flt (the i) (Fin 0))"
    using assms by (auto simp: missing_or_negative_def split: option.splits)
  have "validate r i s = Inl InvalidCashFlows \<longleftrightarrow> parse_tokens (split (CHR '','') s) = None"
    unfolding validate_def using v by (auto split: option.splits)
  then show ?thesis by (simp only: parse_tokens_None_iff)
qed

lemma parses_to_finite_numbers_imp:
  assumes "parses_to_finite_numbers s"
  shows "\<not> (\<exists>t \<in> set (split (CHR '','') s). py_float (strip t) = None)"
  using assms
  by (fastforce simp: parses_to_finite_numbers_def Let_def list_all_iff split: option.splits)

section \<open>The claims\<close>

text \<open>
  C1.  When the computation returns a result, the rate was divided by 100, the discounted
  flow of each period \<open>i\<close> (counted from 1) is the cash flow of that period divided by
  \<open>1 + r\<close> to the power \<open>i\<close>, and the NPV is the investment negated plus the discounted
  flows, added from left to right.
\<close>

theorem npv_formula:
  assumes "compute_npv discount_rate initial_investment cash_flows_list = Inr res"
  shows "\<exists>r. fdiv discount_rate (Fin 100) = Inr r \<and>
           length (discounted_cash_flows res) = length cash_flows_list \<and>
           (\<forall>i < length cash_flows_list.
              \<exists>p. fpow (fadd (Fin 1) r) (i + 1) = Inr p \<and>
                  fdiv (cash_flows_list ! i) p = Inr (discounted_cash_flows res ! i)) \<and>
           npv res = foldl fadd (fneg initial_investment) (discounted_cash_flows res)"
proof -
  from compute_npv_Inr [OF assms] obtain r where
    r: "fdiv discount_rate (Fin 100) = Inr r" and
    loop: "discount_loop r 0 cash_flows_list (fneg initial_investment, []) =
           Inr (npv res, discounted_cash_flows res)"
    by blast
  from discount_loop_Inr [OF loop] obtain ds where
    ds: "discounted_cash_flows res = [] @ ds" "length ds = length cash_flows_list"
      "npv res = foldl fadd (fneg initial_investment) ds"
      "\<forall>j < length cash_flows_list. discounted r (0 + j) (cash_flows_list ! j) = Inr (ds ! j)"
    by blast
  have "\<forall>i < length cash_flows_list.
          \<exists>p. fpow (fadd (Fin 1) r) (i + 1) = Inr p \<and>
              fdiv (cash_flows_list ! i) p = Inr (discounted_cash_flows res ! i)"
  proof (intro allI impI)
    fix i assume "i < length cash_flows_list"
    with ds(4) have "discounted r i (cash_flows_list ! i) = Inr (ds ! i)" by simp
    then show "\<exists>p. fpow (fadd (Fin 1) r) (i + 1) = Inr p \<and>
              fdiv (cash_flows_list ! i) p = Inr (discounted_cash_flows res ! i)"
      using ds(1) by (auto simp: discounted_def split: sum.splits)
  qed
  then show ?thesis using r ds(1,2,3) by auto
qed

theorem npv_formula_witness:
  "compute_npv (Fin 0) (Fin 5000) [Fin 1000, Fin 1000, Fin 1000] =
     Inr \<lparr> years = [1, 2, 3], discounted_cash_flows = [Fin 1000, Fin 1000, Fin 1000],
           cumulative_values = [Fin (- 5000), Fin (- 4000), Fin (- 3000), Fin (- 2000)],
           npv = Fin (- 2000), viable = False \<rparr> \<and>
   (\<exists>r. fdiv (Fin 0) (Fin 100) = Inr r \<and>
      (\<forall>i < 3. \<exists>p. fpow (fadd (Fin 1) r) (i + 1) = Inr p \<and>
           fdiv ([Fin 1000, Fin 1000, Fin 1000] ! i) p = Inr ([Fin 1000, Fin 1000, Fin 1000] ! i)) \<and>
      Fin (- 2000) = foldl fadd (fneg (Fin 5000)) [Fin 1000, Fin 1000, Fin 1000])"
proof -
  have e: "compute_npv (Fin 0) (Fin 5000) [Fin 1000, Fin 1000, Fin 1000] =
     Inr \<lparr> years = [1, 2, 3], discounted_cash_flows = [Fin 1000, Fin 1000, Fin 1000],
           cumulative_values = [Fin (- 5000), Fin (- 4000), Fin (- 3000), Fin (- 2000)],
           npv = Fin (- 2000), viable = False \<rparr>"
    by (simp add: eval_simps upt_rec numeral_eq_Suc)
  show ?thesis using e npv_formula [OF e] by simp
qed





text \<open>
  C4.  The checks run in the order discount rate, investment, cash flows, and the first
  failure is the one reported: when the rate or the investment is missing or negative,
  the alert is about the rate if the rate is invalid, and about the investment otherwise,
  whatever the cash-flow string holds.  In particular an invalid rate together with an
  invalid investment is reported as an invalid discount rate.
\<close>

theorem validation_order:
  assumes "missing_or_negative discount_rate \<or> missing_or_negative initial_investment"
  shows "calculate_npv (Some n) discount_rate initial_investment cash_flows =
         ErrorAlert (if missing_or_negative discount_rate then InvalidDiscountRate
                     else InvalidInvestment)"
  using assms
  by (auto simp: calculate_npv_def validate_def missing_or_negative_def split: option.splits)

theorem validation_order_witness:
  "(missing_or_negative None \<or> missing_or_negative (Some (Fin (- 1)))) \<and>
   calculate_npv (Some 1) None (Some (Fin (- 1))) ''1000, abc'' = ErrorAlert InvalidDiscountRate"
proof -
  have h: "missing_or_negative None \<or> missing_or_negative (Some (Fin (- 1)))"
    by (simp add: missing_or_negative_def)
  show ?thesis
    using h validation_order [OF h, of 1 "''1000, abc''"]
    by (simp add: missing_or_negative_def)
qed

text \<open>
  C5.  With a valid rate and a valid investment, the callback reports invalid cash flows
  exactly when some token of the string, split on commas and trimmed, is not a literal
  that \<^verbatim>\<open>float\<close> accepts.  When it does, the string does not parse into finite numbers;
  the string \<^verbatim>\<open>1000, abc, 2000\<close> is reported so.
\<close>

theorem invalid_cash_flows_iff:
  assumes "\<not> missing_or_negative discount_rate" "\<not> missing_or_negative initial_investment"
  shows "(calculate_npv (Some n) discount_rate initial_investment cash_flows = ErrorAlert InvalidCashFlows
          \<longleftrightarrow> (\<exists>t \<in> set (split (CHR '','') cash_flows). py_float (strip t) = None)) \<and>
         (calculate_npv (Some n) discount_rate initial_investment cash_flows = ErrorAlert InvalidCashFlows
          \<longrightarrow> \<not> parses_to_finite_numbers cash_flows)"
proof -
  have "calculate_npv (Some n) discount_rate initial_investment cash_flows = ErrorAlert InvalidCashFlows
        \<longleftrightarrow> validate discount_rate initial_investment cash_flows = Inl InvalidCashFlows"
    by (auto simp: calculate_npv_def split: sum.splits)
  then have 1: "calculate_npv (Some n) discount_rate initial_investment cash_flows = ErrorAlert InvalidCashFlows
          \<longleftrightarrow> (\<exists>t \<in> set (split (CHR '','') cash_flows). py_float (strip t) = None)"
    using validate_InvalidCashFlows_iff [OF assms] by simp
  then show ?thesis using parses_to_finite_numbers_imp [of cash_flows] by blast
qed

theorem invalid_cash_flows_iff_witness:
  "\<not> missing_or_negative (Some (Fin 10)) \<and> \<not> missing_or_negative (Some (Fin 5000)) \<and>
   calculate_npv (Some 1) (Some (Fin 10)) (Some (Fin 5000)) ''1000, abc, 2000'' =
     ErrorAlert InvalidCashFlows \<and>
   \<not> parses_to_finite_numbers ''1000, abc, 2000''"
proof -
  have a: "\<not> missing_or_negative (Some (Fin 10))" "\<not> missing_or_negative (Some (Fin 5000))"
    by (simp_all add: missing_or_negative_def)
  have "py_float (strip '' abc'') = None" by (simp add: parse_simps)
  then have "\<exists>t \<in> set (split (CHR '','') ''1000, abc, 2000''). py_float (strip t) = None"
    by simp
  then show ?thesis using a invalid_cash_flows_iff [OF a, of 1 "''1000, abc, 2000''"] by blast
qed

text \<open>
  The converse fails: \<^verbatim>\<open>float\<close> accepts \<^verbatim>\<open>inf\<close>, which is not a finite number, and the
  callback goes on to report a viable project with an infinite NPV.
\<close>

theorem infinite_cash_flow_counterexample:
  "\<not> missing_or_negative (Some (Fin 0)) \<and> \<not> missing_or_negative (Some (Fin 5000)) \<and>
   validate (Some (Fin 0)) (Some (Fin 5000)) ''inf'' = Inr [PosInf] \<and>
   calculate_npv (Some 1) (Some (Fin 0)) (Some (Fin 5000)) ''inf'' =
     Updated ([1], [PosInf]) ([0, 1], [Fin (- 5000), PosInf]) (True, PosInf) \<and>
   \<not> parses_to_finite_numbers ''inf''"
proof -
  have p: "py_float ''inf'' = Some PosInf" by (simp add: parse_simps)
  have s: "strip ''inf'' = ''inf''" by (simp add: strip_def is_space_def)
  have v: "validate (Some (Fin 0)) (Some (Fin 5000)) ''inf'' = Inr [PosInf]"
    by (simp add: validate_def p s)
  have c: "compute_npv (Fin 0) (Fin 5000) [PosInf] =
     Inr \<lparr> years = [1], discounted_cash_flows = [PosInf],
           cumulative_values = [Fin (- 5000), PosInf], npv = PosInf, viable = True \<rparr>"
    by (simp add: eval_simps)
  have "calculate_npv (Some 1) (Some (Fin 0)) (Some (Fin 5000)) ''inf'' =
     Updated ([1], [PosInf]) ([0, 1], [Fin (- 5000), PosInf]) (True, PosInf)"
    by (simp add: calculate_npv_def v c)
  moreover have "\<not> parses_to_finite_numbers ''inf''"
    by (simp add: parses_to_finite_numbers_def p s)
  ultimately show ?thesis using v by (simp add: missing_or_negative_def)
qed

text \<open>
  C6.  The project is reported as viable exactly when the NPV is greater than zero; an
  NPV of zero is not viable.
\<close>

theorem viable_iff_positive:
  assumes "compute_npv discount_rate initial_investment cash_flows_list = Inr res"
  shows "viable res = flt (Fin 0) (npv res) \<and> (npv res = Fin 0 \<longrightarrow> \<not> viable res)"
  using compute_npv_Inr [OF assms] by auto

theorem viable_iff_positive_witness:
  "compute_npv (Fin 0) (Fin 1000) [Fin 1000] =
     Inr \<lparr> years = [1], discounted_cash_flows = [Fin 1000],
           cumulative_values = [Fin (- 1000), Fin 0], npv = Fin 0, viable = False \<rparr> \<and>
   npv \<lparr> years = [1], discounted_cash_flows = [Fin 1000],
         cumulative_values = [Fin (- 1000), Fin 0], npv = Fin 0, viable = False \<rparr> = Fin 0 \<and>
   \<not> viable \<lparr> years = [1], discounted_cash_flows = [Fin 1000],
         cumulative_values = [Fin (- 1000), Fin 0], npv = Fin 0, viable = False \<rparr>"
proof -
  have e: "compute_npv (Fin 0) (Fin 1000) [Fin 1000] =
     Inr \<lparr> years = [1], discounted_cash_flows = [Fin 1000],
           cumulative_values = [Fin (- 1000), Fin 0], npv = Fin 0, viable = False \<rparr>"
    by (simp add: eval_simps)
  show ?thesis using e viable_iff_positive [OF e] by simp
qed

text \<open>
  C7.  For a valid input with a discount rate of 0 the computation returns, every
  discounted flow is its cash flow, and the NPV is the investment negated plus the cash
  flows, added from left to right in floating point.
\<close>

theorem zero_rate_npv:
  assumes "valid_input (Fin 0) initial_investment cash_flows_list"
  shows "\<exists>res. compute_npv (Fin 0) initial_investment cash_flows_list = Inr res \<and>
           discounted_cash_flows res = cash_flows_list \<and>
           npv res = foldl fadd (fneg initial_investment) cash_flows_list"
proof -
  have r: "fdiv (Fin 0) (Fin 100) = Inr (Fin 0)" by (simp add: round_double_0)
  have d: "discounted (Fin 0) j (cash_flows_list ! j) = Inr (cash_flows_list ! j)"
    if "j < length cash_flows_list" for j
    using assms that by (intro discounted_zero_rate) (simp add: valid_input_def list_all_length)
  then have "\<forall>j < length cash_flows_list. \<exists>d. discounted (Fin 0) j (cash_flows_list ! j) = Inr d"
    by blast
  with compute_npv_cases(1) [OF r, of initial_investment cash_flows_list] obtain res where
    res: "compute_npv (Fin 0) initial_investment cash_flows_list = Inr res" by blast
  note c = cumulative_nth(2,4) [OF res, of 0]
  have "discounted_cash_flows res = cash_flows_list"
  proof (rule nth_equalityI)
    show "length (discounted_cash_flows res) = length cash_flows_list" using c(1) by simp
    fix j assume "j < length (discounted_cash_flows res)"
    then have j: "j < length cash_flows_list" using c(1) by simp
    from compute_npv_discounted [OF res r j] d [OF j]
    show "discounted_cash_flows res ! j = cash_flows_list ! j" by simp
  qed
  then show ?thesis using res c(2) by auto
qed

theorem zero_rate_npv_witness:
  "valid_input (Fin 0) (Fin 5000) [Fin 1000, Fin 1000, Fin 1000] \<and>
   (\<exists>res. compute_npv (Fin 0) (Fin 5000) [Fin 1000, Fin 1000, Fin 1000] = Inr res \<and>
      discounted_cash_flows res = [Fin 1000, Fin 1000, Fin 1000] \<and> npv res = Fin (- 2000))"
proof -
  have v: "valid_input (Fin 0) (Fin 5000) [Fin 1000, Fin 1000, Fin 1000]"
    by (rule valid_example)
  have "foldl fadd (fneg (Fin 5000)) [Fin 1000, Fin 1000, Fin 1000] = Fin (- 2000)"
    by (simp add: round_double_numeral)
  then show ?thesis using v zero_rate_npv [OF v] by simp
qed

text \<open>
  That sum is not \<^verbatim>\<open>sum(cash_flows) - initial_investment\<close>: with an investment of
  \<open>10 ^ 17\<close> and the cash flows \<open>10 ^ 17\<close> and 1, the NPV is 1, but \<open>10 ^ 17 + 1\<close> rounds
  to \<open>10 ^ 17\<close>, so that the sum of the cash flows minus the investment is 0.
\<close>

theorem zero_rate_identity_counterexample:
  "valid_input (Fin 0) (Fin 100000000000000000) [Fin 100000000000000000, Fin 1] \<and>
   compute_npv (Fin 0) (Fin 100000000000000000) [Fin 100000000000000000, Fin 1] =
     Inr \<lparr> years = [1, 2], discounted_cash_flows = [Fin 100000000000000000, Fin 1],
           cumulative_values = [Fin (- 100000000000000000), Fin 0, Fin 1], npv = Fin 1,
           viable = True \<rparr> \<and>
   fadd (py_sum [Fin 100000000000000000, Fin 1]) (fneg (Fin 100000000000000000)) = Fin 0"
  by (simp add: valid_input_def finite_nonneg_def finite_float_def is_double_def
      eval_simps round_double_1e17 round_double_1e17_plus_1 upt_rec numeral_eq_Suc)

text \<open>
  C8.  For a valid input with \<open>r > 0\<close> and cash flows greater than zero, on which the
  computation returns, the discounted flow of every period is finite, not negative and
  not above the cash flow of that period.
\<close>

theorem discounting_does_not_increase:
  assumes "valid_input discount_rate initial_investment cash_flows_list"
    and "fdiv discount_rate (Fin 100) = Inr r" "flt (Fin 0) r"
    and "all_positive cash_flows_list"
    and "compute_npv discount_rate initial_investment cash_flows_list = Inr res"
    and "i < length cash_flows_list"
  shows "\<exists>c d. cash_flows_list ! i = Fin c \<and> discounted_cash_flows res ! i = Fin d \<and>
           0 \<le> d \<and> d \<le> c \<and> \<not> flt (cash_flows_list ! i) (discounted_cash_flows res ! i)"
proof -
  have fn: "finite_nonneg discount_rate" using assms(1) by (simp add: valid_input_def)
  from rate_decimal_nonneg [OF fn] assms(2) obtain p where p: "r = Fin p" "0 \<le> p" by auto
  have "finite_float (cash_flows_list ! i)"
    using assms(1,6) by (simp add: valid_input_def list_all_length)
  then obtain c where c: "cash_flows_list ! i = Fin c" "is_double c"
    by (cases "cash_flows_list ! i") (auto simp: finite_float_def)
  have "flt (Fin 0) (cash_flows_list ! i)" using assms(4,6) by (simp add: all_positive_def list_all_length)
  then have cpos: "0 < c" using c(1) by simp
  have "discounted (Fin p) i (Fin c) = Inr (discounted_cash_flows res ! i)"
    using compute_npv_discounted [OF assms(5,2,6)] p(1) c(1) by simp
  from discounted_le [OF p(2) cpos c(2) this] obtain d where
    "discounted_cash_flows res ! i = Fin d" "0 \<le> d" "d \<le> c" by blast
  then show ?thesis using c(1) by auto
qed

theorem discounting_does_not_increase_witness:
  "valid_input (Fin 100) (Fin 5000) [Fin 1000] \<and>
   fdiv (Fin 100) (Fin 100) = Inr (Fin 1) \<and> flt (Fin 0) (Fin 1) \<and>
   all_positive [Fin 1000] \<and>
   compute_npv (Fin 100) (Fin 5000) [Fin 1000] =
     Inr \<lparr> years = [1], discounted_cash_flows = [Fin 500],
           cumulative_values = [Fin (- 5000), Fin (- 4500)], npv = Fin (- 4500),
           viable = False \<rparr> \<and>
   \<not> flt (Fin 1000) (Fin 500)"
proof -
  have v: "valid_input (Fin 100) (Fin 5000) [Fin 1000]"
    by (simp add: valid_input_def finite_nonneg_def finite_float_def is_double_def
      round_double_numeral)
  have r: "fdiv (Fin 100) (Fin 100) = Inr (Fin 1)" by (simp add: round_double_1)
  have pos: "flt (Fin 0) (Fin 1)" by simp
  have cs: "all_positive [Fin 1000]" by (simp add: all_positive_def)
  have e: "compute_npv (Fin 100) (Fin 5000) [Fin 1000] =
     Inr \<lparr> years = [1], discounted_cash_flows = [Fin 500],
           cumulative_values = [Fin (- 5000), Fin (- 4500)], npv = Fin (- 4500),
           viable = False \<rparr>"
    by (simp add: eval_simps)
  have i: "0 < length [Fin 1000]" by simp
  show ?thesis
    using v r pos cs e discounting_does_not_increase [OF v r pos cs e i] by simp
qed

text \<open>
  The inequality is not strict: at the rate \<open>25 / 2 ^ 58\<close> percent, \<open>r\<close> is \<open>1 / 2 ^ 60\<close>,
  the sum \<open>1 + r\<close> rounds to 1, and the discounted flow equals the cash flow.
\<close>

theorem strict_discount_counterexample:
  "valid_input (Fin (25 / 2 ^ 58)) (Fin 5000) [Fin 1000] \<and>
   fdiv (Fin (25 / 2 ^ 58)) (Fin 100) = Inr (Fin (1 / 2 ^ 60)) \<and>
   flt (Fin 0) (Fin (1 / 2 ^ 60)) \<and>
   all_positive [Fin 1000] \<and>
   compute_npv (Fin (25 / 2 ^ 58)) (Fin 5000) [Fin 1000] =
     Inr \<lparr> years = [1], discounted_cash_flows = [Fin 1000],
           cumulative_values = [Fin (- 5000), Fin (- 4000)], npv = Fin (- 4000),
           viable = False \<rparr> \<and>
   \<not> flt ([Fin 1000] ! 0) ([Fin 1000] ! 0)"
proof -
  have v: "valid_input (Fin (25 / 2 ^ 58)) (Fin 5000) [Fin 1000]"
    using is_double_tiny_rate
    by (simp add: valid_input_def finite_nonneg_def finite_float_def is_double_def
      round_double_numeral)
  have "(25 / 2 ^ 58 :: rat) / 100 = 1 / 2 ^ 60" by simp
  then have r: "fdiv (Fin (25 / 2 ^ 58)) (Fin 100) = Inr (Fin (1 / 2 ^ 60))"
    using round_double_2_pow_minus_60 by (simp del: power_numeral)
  have b: "fadd (Fin 1) (Fin (1 / 2 ^ 60)) = Fin 1" using round_double_one_plus_tiny by simp
  have d0: "discounted (Fin (1 / 2 ^ 60)) 0 (Fin 1000) = Inr (Fin 1000)"
    unfolding discounted_def b by (simp add: round_double_1 round_double_numeral)
  have e: "compute_npv (Fin (25 / 2 ^ 58)) (Fin 5000) [Fin 1000] =
     Inr \<lparr> years = [1], discounted_cash_flows = [Fin 1000],
           cumulative_values = [Fin (- 5000), Fin (- 4000)], npv = Fin (- 4000),
           viable = False \<rparr>"
    unfolding compute_npv_def r using d0 by (simp add: py_sum_def round_double_numeral)
  show ?thesis using v r e by (simp add: all_positive_def)
qed

text \<open>
  C9.  For a valid input the rate divided by 100 is a finite \<open>r \<ge> 0\<close>, and no division of
  the loop has a zero divisor: every power of \<open>1 + r\<close> that is computed is at least 1 or
  infinite, so that \<^verbatim>\<open>ZeroDivisionError\<close> never occurs.  The computation is not total,
  though: it returns a result exactly when no power \<open>(1 + r) ** i\<close> of a period overflows
  the doubles, and raises \<^verbatim>\<open>OverflowError\<close> otherwise.
\<close>

theorem engine_failure_modes:
  assumes "valid_input discount_rate initial_investment cash_flows_list"
  shows "\<exists>p. fdiv discount_rate (Fin 100) = Inr (Fin p) \<and> 0 \<le> p \<and>
           (\<forall>i q. fpow (fadd (Fin 1) (Fin p)) (i + 1) = Inr q \<longrightarrow> q \<noteq> Fin 0) \<and>
           compute_npv discount_rate initial_investment cash_flows_list \<noteq> Inl ZeroDivisionError \<and>
           (compute_npv discount_rate initial_investment cash_flows_list = Inl OverflowError \<longleftrightarrow>
              (\<exists>i < length cash_flows_list.
                 fpow (fadd (Fin 1) (Fin p)) (i + 1) = Inl OverflowError)) \<and>
           ((\<exists>res. compute_npv discount_rate initial_investment cash_flows_list = Inr res) \<longleftrightarrow>
              (\<forall>i < length cash_flows_list.
                 fpow (fadd (Fin 1) (Fin p)) (i + 1) \<noteq> Inl OverflowError))"
proof -
  have fn: "finite_nonneg discount_rate" using assms by (simp add: valid_input_def)
  from compute_npv_valid [OF fn, of initial_investment cash_flows_list] obtain p where
    p: "fdiv discount_rate (Fin 100) = Inr (Fin p)" "0 \<le> p"
      "compute_npv discount_rate initial_investment cash_flows_list \<noteq> Inl ZeroDivisionError"
      "compute_npv discount_rate initial_investment cash_flows_list = Inl OverflowError \<longleftrightarrow>
         (\<exists>i < length cash_flows_list. fpow (fadd (Fin 1) (Fin p)) (i + 1) = Inl OverflowError)"
    by blast
  have nz: "\<forall>i q. fpow (fadd (Fin 1) (Fin p)) (i + 1) = Inr q \<longrightarrow> q \<noteq> Fin 0"
    using fpow_divisor_nonzero [OF p(2)] by blast
  have "(\<exists>res. compute_npv discount_rate initial_investment cash_flows_list = Inr res) \<longleftrightarrow>
        compute_npv discount_rate initial_investment cash_flows_list \<noteq> Inl OverflowError"
  proof (cases "compute_npv discount_rate initial_investment cash_flows_list")
    case (Inl e)
    then show ?thesis using p(3) by (cases e) auto
  next
    case (Inr res)
    then show ?thesis by simp
  qed
  then have "(\<exists>res. compute_npv discount_rate initial_investment cash_flows_list = Inr res) \<longleftrightarrow>
      (\<forall>i < length cash_flows_list. fpow (fadd (Fin 1) (Fin p)) (i + 1) \<noteq> Inl OverflowError)"
    using p(4) by blast
  then show ?thesis using p nz by blast
qed

theorem engine_failure_modes_witness:
  "valid_input (Fin 0) (Fin 5000) [Fin 1000, Fin 1000, Fin 1000] \<and>
   compute_npv (Fin 0) (Fin 5000) [Fin 1000, Fin 1000, Fin 1000] \<noteq> Inl ZeroDivisionError \<and>
   ((\<exists>res. compute_npv (Fin 0) (Fin 5000) [Fin 1000, Fin 1000, Fin 1000] = Inr res) \<longleftrightarrow>
      (\<forall>i < 3. fpow (fadd (Fin 1) (Fin 0)) (i + 1) \<noteq> Inl OverflowError))"
proof -
  have v: "valid_input (Fin 0) (Fin 5000) [Fin 1000, Fin 1000, Fin 1000]"
    by (rule valid_example)
  have r: "fdiv (Fin 0) (Fin 100) = Inr (Fin 0)" by (simp add: round_double_0)
  show ?thesis
    using v engine_failure_modes [OF v] unfolding r
    by (auto simp del: fpow.simps fadd.simps)
qed

text \<open>
  At a rate of 100 percent the power of period 1024 is \<open>2.0 ** 1024\<close>, which is out of
  range: the computation raises \<^verbatim>\<open>OverflowError\<close> on this valid input.
\<close>

theorem engine_overflow_counterexample:
  "valid_input (Fin 100) (Fin 5000) (replicate 1024 (Fin 1000)) \<and>
   compute_npv (Fin 100) (Fin 5000) (replicate 1024 (Fin 1000)) = Inl OverflowError"
proof -
  have d: "is_double 100" "is_double 5000" "is_double 1000"
    by (simp_all add: is_double_def round_double_numeral)
  have v: "valid_input (Fin 100) (Fin 5000) (replicate 1024 (Fin 1000))"
    using d by (simp add: valid_input_def finite_nonneg_def list_all_replicate finite_float_def)
  have fn: "finite_nonneg (Fin 100)" using d by (simp add: finite_nonneg_def)
  have r: "fdiv (Fin 100) (Fin 100) = Inr (Fin 1)" by (simp add: round_double_1)
  have b: "fadd (Fin 1) (Fin 1) = Fin 2" by (simp add: round_double_numeral)
  from compute_npv_valid [OF fn, of "Fin 5000" "replicate 1024 (Fin 1000)"] r
  have "compute_npv (Fin 100) (Fin 5000) (replicate 1024 (Fin 1000)) = Inl OverflowError \<longleftrightarrow>
        (\<exists>i < length (replicate 1024 (Fin 1000) :: pyfloat list).
            fpow (fadd (Fin 1) (Fin 1)) (i + 1) = Inl OverflowError)"
    by (auto simp del: fpow.simps fadd.simps fdiv.simps)
  moreover have "\<exists>i < length (replicate 1024 (Fin 1000) :: pyfloat list).
            fpow (fadd (Fin 1) (Fin 1)) (i + 1) = Inl OverflowError"
    using fpow_2_1024 unfolding b by (intro exI [of _ 1023]) (simp del: fpow.simps)
  ultimately show ?thesis using v by blast
qed

text \<open>
  C10.  Splitting on commas gives at least one token, so the parsed list is never empty
  and the callback never reports "at least one cash flow".  With a valid rate and a valid
  investment, a string with a token that is empty after trimming (the empty string, a
  trailing comma) is reported as invalid cash flows.
\<close>

theorem empty_branch_unreachable:
  "1 \<le> length (split (CHR '','') cash_flows) \<and>
   parse_tokens (split (CHR '','') cash_flows) \<noteq> Some [] \<and>
   calculate_npv n_clicks discount_rate initial_investment cash_flows \<noteq> ErrorAlert EmptyCashFlows \<and>
   (\<not> missing_or_negative discount_rate \<and> \<not> missing_or_negative initial_investment \<and>
    (\<exists>t \<in> set (split (CHR '','') cash_flows). strip t = []) \<longrightarrow>
    calculate_npv (Some n) discount_rate initial_investment cash_flows = ErrorAlert InvalidCashFlows)"
proof (intro conjI impI)
  show "1 \<le> length (split (CHR '','') cash_flows)"
    using split_not_Nil [of "CHR '',''" cash_flows] by (cases "split (CHR '','') cash_flows") auto
  show "parse_tokens (split (CHR '','') cash_flows) \<noteq> Some []"
    by (rule parse_tokens_split_not_Nil)
  show "calculate_npv n_clicks discount_rate initial_investment cash_flows \<noteq> ErrorAlert EmptyCashFlows"
    using validate_not_Empty [of discount_rate initial_investment cash_flows]
    by (auto simp: calculate_npv_def split: sum.splits)
next
  assume a: "\<not> missing_or_negative discount_rate \<and> \<not> missing_or_negative initial_investment \<and>
    (\<exists>t \<in> set (split (CHR '','') cash_flows). strip t = [])"
  then have "\<exists>t \<in> set (split (CHR '','') cash_flows). py_float (strip t) = None"
    by (metis py_float_Nil)
  then have "parse_tokens (split (CHR '','') cash_flows) = None"
    by (simp only: parse_tokens_None_iff)
  then show "calculate_npv (Some n) discount_rate initial_investment cash_flows = ErrorAlert InvalidCashFlows"
    using a by (auto simp: calculate_npv_def validate_def missing_or_negative_def split: option.splits)
qed

theorem empty_branch_unreachable_witness:
  "(\<not> missing_or_negative (Some (Fin 10)) \<and> \<not> missing_or_negative (Some (Fin 5000)) \<and>
    (\<exists>t \<in> set (split (CHR '','') ''1000,''). strip t = [])) \<and>
   calculate_npv (Some 1) (Some (Fin 10)) (Some (Fin 5000)) ''1000,'' = ErrorAlert InvalidCashFlows"
proof -
  have h: "\<not> missing_or_negative (Some (Fin 10)) \<and> \<not> missing_or_negative (Some (Fin 5000)) \<and>
    (\<exists>t \<in> set (split (CHR '','') ''1000,''). strip t = [])"
    by (simp add: missing_or_negative_def strip_def)
  show ?thesis
    using h empty_branch_unreachable [of "''1000,''" "Some 1" "Some (Fin 10)" "Some (Fin 5000)" 1]
    by blast
qed

end
